theory Spec2Isabelle
  imports Complex_Main
begin

section \<open>Gaussian naive Bayes classifier: imylu/probability_model/gaussian_nb.py\<close>

text \<open>
  The class \<open>GaussianNB\<close> is embedded with explicit state passing, under the semantics of
  Python 3 (\<open>/\<close> is true division, the variable of a list comprehension is local to it).
  Python numbers (int or float) are read as exact reals, so every statement below is about
  exact arithmetic; rounding, overflow and NaN of IEEE floats are outside the model. A
  feature matrix is a list of rows of reals, a label vector a list of integers. Every
  Python exception the code can raise on such arguments is a value of type \<open>error\<close>.
\<close>

subsection \<open>Python failures as values\<close>

datatype error = IndexError | TypeError | ValueError | ZeroDivisionError

type_synonym 'a result = "error + 'a"

definition bindr :: "'a result \<Rightarrow> ('a \<Rightarrow> 'b result) \<Rightarrow> 'b result" where
  "bindr r f = (case r of Inl e \<Rightarrow> Inl e | Inr v \<Rightarrow> f v)"

text \<open>A list comprehension whose body may raise: the first failure aborts it.\<close>

fun map_res :: "('a \<Rightarrow> 'b result) \<Rightarrow> 'a list \<Rightarrow> 'b list result" where
  "map_res f [] = Inr []"
| "map_res f (x # xs) = bindr (f x) (\<lambda>v. bindr (map_res f xs) (\<lambda>vs. Inr (v # vs)))"

text \<open>A \<open>for\<close> loop over a list, threading the loop state; a failing body aborts it.\<close>

fun for_res :: "('a \<Rightarrow> 's \<Rightarrow> 's result) \<Rightarrow> 'a list \<Rightarrow> 's \<Rightarrow> 's result" where
  "for_res body [] s = Inr s"
| "for_res body (x # xs) s = bindr (body x s) (for_res body xs)"

subsection \<open>Python primitives used by the class\<close>

text \<open>List indexing \<open>xs[k]\<close>: a negative index counts from the end, anything else out of
  range raises IndexError.\<close>

definition py_index :: "nat \<Rightarrow> int \<Rightarrow> nat result" where
  "py_index n k =
     (if 0 \<le> k \<and> k < int n then Inr (nat k)
      else if k < 0 \<and> - int n \<le> k then Inr (nat (int n + k))
      else Inl IndexError)"

definition getitem :: "'a list \<Rightarrow> int \<Rightarrow> 'a result" where
  "getitem xs k = bindr (py_index (length xs) k) (\<lambda>i. Inr (xs ! i))"

definition setitem :: "'a list \<Rightarrow> int \<Rightarrow> 'a \<Rightarrow> 'a list result" where
  "setitem xs k v = bindr (py_index (length xs) k) (\<lambda>i. Inr (xs[i := v]))"

text \<open>True division \<open>a / b\<close> and \<open>math.sqrt\<close>.\<close>

definition truediv :: "real \<Rightarrow> real \<Rightarrow> real result" where
  "truediv a b = (if b = 0 then Inl ZeroDivisionError else Inr (a / b))"

definition math_sqrt :: "real \<Rightarrow> real result" where
  "math_sqrt a = (if a < 0 then Inl ValueError else Inr (sqrt a))"

text \<open>\<open>collections.Counter\<close> on a list: a dictionary in insertion order from each distinct
  element to its number of occurrences.\<close>

fun counter_add :: "int \<Rightarrow> (int \<times> nat) list \<Rightarrow> (int \<times> nat) list" where
  "counter_add l [] = [(l, 1)]"
| "counter_add l ((k, c) # kcs) =
     (if k = l then (k, c + 1) # kcs else (k, c) # counter_add l kcs)"

definition Counter :: "int list \<Rightarrow> (int \<times> nat) list" where
  "Counter y = fold counter_add y []"

text \<open>\<open>max(items, key=key)\<close>: the first item is the candidate, a later item replaces it only
  when its key is strictly greater; an empty argument raises ValueError.\<close>

fun py_max :: "('a \<Rightarrow> real) \<Rightarrow> 'a list \<Rightarrow> 'a result" where
  "py_max key [] = Inl ValueError"
| "py_max key (x # xs) =
     Inr (fold (\<lambda>item best. if key best < key item then item else best) xs x)"

subsection \<open>The classifier\<close>

text \<open>The four attributes; \<open>None\<close> is Python's \<open>None\<close>.\<close>

record gnb =
  prior :: "(int \<times> nat) list option"
  avgs :: "real list list option"
  variances :: "real list list option"
  n_class :: "nat option"

text \<open>\<open>__init__\<close>\<close>

definition init :: gnb where
  "init = \<lparr>prior = None, avgs = None, variances = None, n_class = None\<rparr>"

text \<open>\<open>_get_prior\<close>\<close>

definition get_prior :: "int list \<Rightarrow> (int \<times> nat) list" where
  "get_prior y = Counter y"

text \<open>\<open>_get_posterior\<close>: \<open>1 / sqrt(2 * pi * variance) * exp(-(xij - avg)**2 / (2 * variance))\<close>,
  evaluated left to right.\<close>

definition get_posterior :: "real \<Rightarrow> real \<Rightarrow> real \<Rightarrow> real result" where
  "get_posterior xij avg variance =
     bindr (math_sqrt (2 * pi * variance)) (\<lambda>root.
     bindr (truediv 1 root) (\<lambda>scale.
     bindr (truediv (- ((xij - avg)\<^sup>2)) (2 * variance)) (\<lambda>expo.
     Inr (scale * exp expo))))"

text \<open>\<open>_get_avg_var\<close>. The body of the inner loop, for column \<open>j\<close> and row \<open>i\<close>:
  \<open>feature_sum[y[i]] += X[i][j]\<close> and \<open>feature_sqr_sum[y[i]] += X[i][j] ** 2\<close>.\<close>

definition accumulate ::
  "real list list \<Rightarrow> int list \<Rightarrow> nat \<Rightarrow> nat \<Rightarrow> real list \<times> real list \<Rightarrow> (real list \<times> real list) result" where
  "accumulate X y j i acc =
     (case acc of (feature_sum, feature_sqr_sum) \<Rightarrow>
        bindr (getitem y (int i)) (\<lambda>l.
        bindr (getitem feature_sum l) (\<lambda>s.
        bindr (bindr (getitem X (int i)) (\<lambda>row. getitem row (int j))) (\<lambda>x.
        bindr (setitem feature_sum l (s + x)) (\<lambda>feature_sum'.
        bindr (getitem y (int i)) (\<lambda>l'.
        bindr (getitem feature_sqr_sum l') (\<lambda>q.
        bindr (bindr (getitem X (int i)) (\<lambda>row. getitem row (int j))) (\<lambda>x'.
        bindr (setitem feature_sqr_sum l' (q + x'\<^sup>2)) (\<lambda>feature_sqr_sum'.
        Inr (feature_sum', feature_sqr_sum'))))))))))"

text \<open>One pass of the outer loop: the two accumulators, then \<open>feature_avg\<close> and
  \<open>feature_var\<close>.\<close>

definition column_moments ::
  "real list list \<Rightarrow> int list \<Rightarrow> nat \<Rightarrow> nat \<Rightarrow> nat \<Rightarrow> (real list \<times> real list) result" where
  "column_moments X y nc n j =
     bindr (for_res (accumulate X y j) [0..<n] (replicate nc 0, replicate nc 0))
       (\<lambda>(feature_sum, feature_sqr_sum).
     bindr (map_res (\<lambda>x. truediv x (real n)) feature_sum) (\<lambda>feature_avg.
     bindr (map_res (\<lambda>(x, a). bindr (truediv x (real n)) (\<lambda>d. Inr (d - a\<^sup>2)))
              (zip feature_sqr_sum feature_avg)) (\<lambda>feature_var.
     Inr (feature_avg, feature_var))))"

definition get_avg_var ::
  "real list list \<Rightarrow> int list \<Rightarrow> nat \<Rightarrow> (real list list \<times> real list list) result" where
  "get_avg_var X y nc =
     bindr (getitem X 0) (\<lambda>row0.
       let m = length row0; n = length X in
       for_res (\<lambda>j (av, vr). bindr (column_moments X y nc n j)
                  (\<lambda>(feature_avg, feature_var). Inr (av @ [feature_avg], vr @ [feature_var])))
         [0..<m] ([], []))"

text \<open>\<open>fit\<close>: the attributes are assigned one after the other, so a failure in
  \<open>_get_avg_var\<close> leaves \<open>prior\<close> and \<open>n_class\<close> already set.\<close>

definition fit :: "real list list \<Rightarrow> int list \<Rightarrow> gnb \<Rightarrow> unit result \<times> gnb" where
  "fit X y self =
     (let self1 = self\<lparr>prior := Some (get_prior y)\<rparr>;
          nc = length (get_prior y);
          self2 = self1\<lparr>n_class := Some nc\<rparr>
      in case get_avg_var X y nc of
           Inl e \<Rightarrow> (Inl e, self2)
         | Inr (av, vr) \<Rightarrow> (Inr (), self2\<lparr>avgs := Some av, variances := Some vr\<rparr>))"

text \<open>\<open>_predict_prob\<close>: \<open>[1] * None\<close> and \<open>zip\<close> over \<open>None\<close> raise TypeError; \<open>zip\<close> stops at
  its shortest argument.\<close>

definition scale_probs :: "real \<times> real list \<times> real list \<Rightarrow> real list \<Rightarrow> real list result" where
  "scale_probs col probs =
     (case col of (xij, avgs_j, variances_j) \<Rightarrow>
        map_res (\<lambda>(prob, avg, var). bindr (get_posterior xij avg var) (\<lambda>d. Inr (prob * d)))
          (zip probs (zip avgs_j variances_j)))"

definition predict_prob_row :: "gnb \<Rightarrow> real list \<Rightarrow> real list result" where
  "predict_prob_row self row =
     (case n_class self of None \<Rightarrow> Inl TypeError | Some nc \<Rightarrow>
     (case avgs self of None \<Rightarrow> Inl TypeError | Some av \<Rightarrow>
     (case variances self of None \<Rightarrow> Inl TypeError | Some vr \<Rightarrow>
        bindr (for_res scale_probs (zip row (zip av vr)) (replicate nc 1)) (\<lambda>probs.
        let probs_sum = sum_list probs in
        map_res (\<lambda>prob. truediv prob probs_sum) probs))))"

definition predict_prob :: "gnb \<Rightarrow> real list list \<Rightarrow> real list list result" where
  "predict_prob self X = map_res (predict_prob_row self) X"

text \<open>\<open>predict\<close>: \<open>max(enumerate(y), key=lambda x: x[1])[0]\<close> for each row of
  \<open>predict_prob(X)\<close>; the body never reads \<open>threshold\<close>.\<close>

definition predict :: "gnb \<Rightarrow> real list list \<Rightarrow> real \<Rightarrow> nat list result" where
  "predict self X threshold =
     bindr (predict_prob self X)
       (map_res (\<lambda>y. bindr (py_max snd (enumerate 0 y)) (\<lambda>best. Inr (fst best))))"

subsection \<open>Reference notions used in the statements\<close>

text \<open>The sum of \<open>f i\<close> over the rows \<open>i < k\<close> that satisfy \<open>P\<close>.\<close>

definition rows_sum :: "(nat \<Rightarrow> real) \<Rightarrow> (nat \<Rightarrow> bool) \<Rightarrow> nat \<Rightarrow> real" where
  "rows_sum f P k = sum_list [f i. i \<leftarrow> [0..<k], P i]"



text \<open>The same sums with the class that Python's indexing \<open>feature_sum[y[i]]\<close> selects, which
  also accepts a negative label.\<close>

definition slot_sum :: "real list list \<Rightarrow> int list \<Rightarrow> nat \<Rightarrow> nat \<Rightarrow> nat \<Rightarrow> nat \<Rightarrow> real" where
  "slot_sum X y j nc k c = rows_sum (\<lambda>i. X ! i ! j) (\<lambda>i. py_index nc (y ! i) = Inr c) k"

definition slot_sqr_sum :: "real list list \<Rightarrow> int list \<Rightarrow> nat \<Rightarrow> nat \<Rightarrow> nat \<Rightarrow> nat \<Rightarrow> real" where
  "slot_sqr_sum X y j nc k c = rows_sum (\<lambda>i. (X ! i ! j)\<^sup>2) (\<lambda>i. py_index nc (y ! i) = Inr c) k"

text \<open>The data model of the specification: a non-empty matrix of fixed width, one label per
  row, the labels being the class indices \<open>0 .. n_class - 1\<close> with \<open>n_class\<close> the number of
  distinct labels.\<close>

definition valid_input :: "real list list \<Rightarrow> int list \<Rightarrow> bool" where
  "valid_input X y \<longleftrightarrow>
     X \<noteq> [] \<and> list_all (\<lambda>row. length row = length (hd X)) X \<and> length y = length X \<and>
     list_all (\<lambda>l. 0 \<le> l \<and> l < int (length (remdups y))) y"

text \<open>The Gaussian density with mean \<open>avg\<close> and variance \<open>var\<close>, the product of the densities
  of a row under class \<open>c\<close>, and a vector divided by its sum.\<close>

definition gauss_density :: "real \<Rightarrow> real \<Rightarrow> real \<Rightarrow> real" where
  "gauss_density x avg var = 1 / sqrt (2 * pi * var) * exp (- (x - avg)\<^sup>2 / (2 * var))"

definition likelihood :: "real list list \<Rightarrow> real list list \<Rightarrow> real list \<Rightarrow> nat \<Rightarrow> real" where
  "likelihood av vr row c =
     prod_list (map (\<lambda>j. gauss_density (row ! j) (av ! j ! c) (vr ! j ! c)) [0..<length row])"

definition normalised :: "real list \<Rightarrow> real list" where
  "normalised ps = map (\<lambda>p. p / sum_list ps) ps"

text \<open>What the loops of \<open>_get_avg_var\<close> need in order not to raise: row \<open>i\<close> has a label,
  the label is an index Python accepts for a list of length \<open>nc\<close>, and the row has a column
  \<open>j\<close>.\<close>

definition row_ok :: "real list list \<Rightarrow> int list \<Rightarrow> nat \<Rightarrow> nat \<Rightarrow> nat \<Rightarrow> bool" where
  "row_ok X y j nc i \<longleftrightarrow>
     i < length y \<and> - int nc \<le> y ! i \<and> y ! i < int nc \<and> j < length (X ! i)"

definition rows_ok :: "real list list \<Rightarrow> int list \<Rightarrow> nat \<Rightarrow> nat \<Rightarrow> nat \<Rightarrow> bool" where
  "rows_ok X y j nc k \<longleftrightarrow> (\<forall>i<k. row_ok X y j nc i)"

definition all_rows_ok :: "real list list \<Rightarrow> int list \<Rightarrow> nat \<Rightarrow> bool" where
  "all_rows_ok X y nc \<longleftrightarrow> (\<forall>j<length (hd X). rows_ok X y j nc (length X))"

text \<open>The entries \<open>feature_avg[c]\<close> and \<open>feature_var[c]\<close> of column \<open>j\<close> in closed form.\<close>

definition fitted_avg :: "real list list \<Rightarrow> int list \<Rightarrow> nat \<Rightarrow> nat \<Rightarrow> nat \<Rightarrow> real" where
  "fitted_avg X y nc j c = slot_sum X y j nc (length X) c / real (length X)"

definition fitted_var :: "real list list \<Rightarrow> int list \<Rightarrow> nat \<Rightarrow> nat \<Rightarrow> nat \<Rightarrow> real" where
  "fitted_var X y nc j c =
     slot_sqr_sum X y j nc (length X) c / real (length X) - (fitted_avg X y nc j c)\<^sup>2"

text \<open>The mean of column \<open>j\<close> over all rows.\<close>

definition column_mean :: "real list list \<Rightarrow> nat \<Rightarrow> real" where
  "column_mean X j = sum_list (map (\<lambda>row. row ! j) X) / real (length X)"

text \<open>\<open>k\<close> is the index of the first maximal entry of \<open>row\<close>.\<close>

definition is_first_max :: "real list \<Rightarrow> nat \<Rightarrow> bool" where
  "is_first_max row k \<longleftrightarrow>
     k < length row \<and> (\<forall>i<length row. row ! i \<le> row ! k) \<and> (\<forall>i<k. row ! i < row ! k)"

text \<open>The attributes as a successful \<open>fit\<close> leaves them: \<open>m\<close> columns of \<open>nc\<close> entries
  each, no variance negative.\<close>

definition fitted_shape :: "gnb \<Rightarrow> nat \<Rightarrow> nat \<Rightarrow> real list list \<Rightarrow> real list list \<Rightarrow> bool" where
  "fitted_shape self nc m av vr \<longleftrightarrow>
     n_class self = Some nc \<and> avgs self = Some av \<and> variances self = Some vr \<and>
     length av = m \<and> length vr = m \<and>
     (\<forall>j<m. length (av ! j) = nc \<and> length (vr ! j) = nc \<and> (\<forall>c<nc. 0 \<le> vr ! j ! c))"

section \<open>Auxiliary facts\<close>

subsection \<open>The error monad\<close>

lemma bindr_Inr [simp]: "bindr (Inr v) f = f v"
  by (simp add: bindr_def)

lemma bindr_Inl [simp]: "bindr (Inl e) f = Inl e"
  by (simp add: bindr_def)

lemma bindr_return [simp]: "bindr r Inr = r"
  by (cases r) simp_all

lemma for_res_Nil_fun [simp]: "for_res body [] = Inr"
  by (rule ext) simp

lemma for_res_append: "for_res body (xs @ ys) s = bindr (for_res body xs s) (for_res body ys)"
  by (induction xs arbitrary: s) (auto simp: bindr_def split: sum.splits)

lemma map_res_all_Inr:
  "(\<And>x. x \<in> set xs \<Longrightarrow> f x = Inr (g x)) \<Longrightarrow> map_res f xs = Inr (map g xs)"
  by (induction xs) auto

lemma map_res_fails:
  assumes "x \<in> set xs" and "f x = Inl e"
    and only: "\<And>z e'. z \<in> set xs \<Longrightarrow> f z = Inl e' \<Longrightarrow> e' = e"
  shows "map_res f xs = Inl e"
  using assms(1) only
proof (induction xs)
  case Nil
  then show ?case by simp
next
  case (Cons a xs)
  show ?case
  proof (cases "f a")
    case (Inl e')
    then have "e' = e" using Cons.prems(2)[of a e'] by simp
    with Inl show ?thesis by simp
  next
    case (Inr v)
    with assms(2) have "x \<noteq> a" by auto
    with Cons.prems(1) have "x \<in> set xs" by simp
    moreover have "\<And>z e'. z \<in> set xs \<Longrightarrow> f z = Inl e' \<Longrightarrow> e' = e"
    proof -
      fix z e'
      assume "z \<in> set xs" and fz: "f z = Inl e'"
      then have "z \<in> set (a # xs)" by simp
      then show "e' = e" using fz by (rule Cons.prems(2))
    qed
    ultimately have "map_res f xs = Inl e" by (rule Cons.IH)
    with Inr show ?thesis by simp
  qed
qed

subsection \<open>Sums over selected rows\<close>

lemma rows_sum_0 [simp]: "rows_sum f P 0 = 0"
  by (simp add: rows_sum_def)

lemma rows_sum_Suc [simp]: "rows_sum f P (Suc k) = rows_sum f P k + (if P k then f k else 0)"
  by (simp add: rows_sum_def)


subsection \<open>Indexing\<close>

lemma py_index_nat: "py_index n (int i) = (if i < n then Inr i else Inl IndexError)"
  by (simp add: py_index_def)

lemma py_index_in_range:
  "- int n \<le> l \<Longrightarrow> l < int n \<Longrightarrow> \<exists>c<n. py_index n l = Inr c"
  by (auto simp: py_index_def)

lemma py_index_out_of_range:
  "\<not> (- int n \<le> l \<and> l < int n) \<Longrightarrow> py_index n l = Inl IndexError"
  by (auto simp: py_index_def)

lemma getitem_nat: "i < length xs \<Longrightarrow> getitem xs (int i) = Inr (xs ! i)"
  by (simp add: getitem_def py_index_nat)

lemma getitem_nat_out: "\<not> i < length xs \<Longrightarrow> getitem xs (int i) = Inl IndexError"
  by (simp add: getitem_def py_index_nat)

lemma getitem_slot: "py_index (length xs) l = Inr c \<Longrightarrow> getitem xs l = Inr (xs ! c)"
  by (simp add: getitem_def)

lemma setitem_slot: "py_index (length xs) l = Inr c \<Longrightarrow> setitem xs l v = Inr (xs[c := v])"
  by (simp add: setitem_def)

lemma getitem_slot_out: "py_index (length xs) l = Inl e \<Longrightarrow> getitem xs l = Inl e"
  by (simp add: getitem_def)

subsection \<open>The inner loop of \<open>_get_avg_var\<close>\<close>

lemma accumulate_ok:
  assumes "i < length X" and "i < length y" and "j < length (X ! i)"
    and slot: "py_index (length fs) (y ! i) = Inr c" and len: "length fq = length fs"
  shows "accumulate X y j i (fs, fq) =
           Inr (fs[c := fs ! c + X ! i ! j], fq[c := fq ! c + (X ! i ! j)\<^sup>2])"
proof -
  have l: "getitem y (int i) = Inr (y ! i)"
    using assms(2) by (rule getitem_nat)
  have x: "bindr (getitem X (int i)) (\<lambda>row. getitem row (int j)) = Inr (X ! i ! j)"
    using assms(1,3) by (simp add: getitem_nat)
  have slot': "py_index (length fq) (y ! i) = Inr c"
    using slot len by simp
  show ?thesis
    by (simp add: accumulate_def l x getitem_slot[OF slot] setitem_slot[OF slot]
        getitem_slot[OF slot'] setitem_slot[OF slot'])
qed

lemma accumulate_not_ok:
  assumes "i < length X" and "\<not> row_ok X y j (length fs) i"
  shows "accumulate X y j i (fs, fq) = Inl IndexError"
proof (cases "i < length y")
  case False
  then show ?thesis by (simp add: accumulate_def getitem_nat_out)
next
  case True
  then have l: "getitem y (int i) = Inr (y ! i)" by (rule getitem_nat)
  show ?thesis
  proof (cases "- int (length fs) \<le> y ! i \<and> y ! i < int (length fs)")
    case False
    then have "getitem fs (y ! i) = Inl IndexError"
      by (simp add: getitem_slot_out py_index_out_of_range)
    then show ?thesis by (simp add: accumulate_def l)
  next
    case inr: True
    then obtain c where "py_index (length fs) (y ! i) = Inr c"
      using py_index_in_range by blast
    then have s: "getitem fs (y ! i) = Inr (fs ! c)" by (rule getitem_slot)
    from inr True assms have "\<not> j < length (X ! i)" by (simp add: row_ok_def)
    then have "bindr (getitem X (int i)) (\<lambda>row. getitem row (int j)) = Inl IndexError"
      using assms(1) by (simp add: getitem_nat getitem_nat_out)
    then show ?thesis by (simp add: accumulate_def l s)
  qed
qed


lemma slot_update:
  assumes "c < nc" and "g k = Inr c"
  shows "(map (\<lambda>c. rows_sum f (\<lambda>i. g i = Inr c) k) [0..<nc])
            [c := map (\<lambda>c. rows_sum f (\<lambda>i. g i = Inr c) k) [0..<nc] ! c + f k] =
         map (\<lambda>c. rows_sum f (\<lambda>i. g i = Inr c) (Suc k)) [0..<nc]"
  using assms by (auto intro!: nth_equalityI simp: nth_list_update)

lemma rows_ok_Suc: "rows_ok X y j nc (Suc k) \<longleftrightarrow> rows_ok X y j nc k \<and> row_ok X y j nc k"
  by (auto simp: rows_ok_def less_Suc_eq)

lemma for_res_accumulate:
  "k \<le> length X \<Longrightarrow>
   for_res (accumulate X y j) [0..<k] (replicate nc 0, replicate nc 0) =
     (if rows_ok X y j nc k
      then Inr (map (\<lambda>c. slot_sum X y j nc k c) [0..<nc],
                map (\<lambda>c. slot_sqr_sum X y j nc k c) [0..<nc])
      else Inl IndexError)"
proof (induction k)
  case 0
  have "replicate nc (0::real) = map (\<lambda>c. 0) [0..<nc]"
    by (simp add: map_replicate_const)
  then show ?case by (simp add: rows_ok_def slot_sum_def slot_sqr_sum_def)
next
  case (Suc k)
  let ?fs = "map (\<lambda>c. slot_sum X y j nc k c) [0..<nc]"
  let ?fq = "map (\<lambda>c. slot_sqr_sum X y j nc k c) [0..<nc]"
  from Suc.prems have k: "k < length X" by simp
  show ?case
  proof (cases "rows_ok X y j nc k")
    case False
    with Suc show ?thesis by (simp add: for_res_append rows_ok_Suc)
  next
    case True
    with Suc have loop: "for_res (accumulate X y j) [0..<Suc k] (replicate nc 0, replicate nc 0) =
        accumulate X y j k (?fs, ?fq)"
      by (simp add: for_res_append)
    show ?thesis
    proof (cases "row_ok X y j nc k")
      case False
      then have "\<not> row_ok X y j (length ?fs) k" by simp
      with k have "accumulate X y j k (?fs, ?fq) = Inl IndexError"
        by (rule accumulate_not_ok)
      with loop False show ?thesis by (simp add: rows_ok_Suc)
    next
      case ok: True
      then obtain c where c: "c < nc" "py_index nc (y ! k) = Inr c"
        unfolding row_ok_def using py_index_in_range by blast
      have "accumulate X y j k (?fs, ?fq) =
          Inr (?fs[c := ?fs ! c + X ! k ! j], ?fq[c := ?fq ! c + (X ! k ! j)\<^sup>2])"
        using k ok c by (intro accumulate_ok) (simp_all add: row_ok_def)
      also have "?fs[c := ?fs ! c + X ! k ! j] = map (\<lambda>c. slot_sum X y j nc (Suc k) c) [0..<nc]"
        unfolding slot_sum_def using c by (rule slot_update)
      also have "?fq[c := ?fq ! c + (X ! k ! j)\<^sup>2] = map (\<lambda>c. slot_sqr_sum X y j nc (Suc k) c) [0..<nc]"
        unfolding slot_sqr_sum_def using c by (rule slot_update)
      finally show ?thesis using loop True ok by (simp add: rows_ok_Suc)
    qed
  qed
qed


subsection \<open>The outer loop and \<open>fit\<close>\<close>

lemma column_moments_eq:
  assumes "X \<noteq> []"
  shows "column_moments X y nc (length X) j =
     (if rows_ok X y j nc (length X)
      then Inr (map (fitted_avg X y nc j) [0..<nc], map (fitted_var X y nc j) [0..<nc])
      else Inl IndexError)"
proof (cases "rows_ok X y j nc (length X)")
  case False
  then show ?thesis by (simp add: column_moments_def for_res_accumulate)
next
  case True
  let ?n = "real (length X)"
  let ?fs = "map (\<lambda>c. slot_sum X y j nc (length X) c) [0..<nc]"
  let ?fq = "map (\<lambda>c. slot_sqr_sum X y j nc (length X) c) [0..<nc]"
  from assms have n: "?n \<noteq> 0" by simp
  have avg: "map_res (\<lambda>x. truediv x ?n) ?fs = Inr (map (fitted_avg X y nc j) [0..<nc])"
  proof -
    have "map_res (\<lambda>x. truediv x ?n) ?fs = Inr (map (\<lambda>x. x / ?n) ?fs)"
      using n by (intro map_res_all_Inr) (simp add: truediv_def)
    then show ?thesis by (simp add: fitted_avg_def comp_def)
  qed
  have zipped: "zip ?fq (map (fitted_avg X y nc j) [0..<nc]) =
      map (\<lambda>c. (slot_sqr_sum X y j nc (length X) c, fitted_avg X y nc j c)) [0..<nc]"
    by (simp add: zip_map_map zip_same_conv_map comp_def)
  have var: "map_res (\<lambda>(x, a). bindr (truediv x ?n) (\<lambda>d. Inr (d - a\<^sup>2)))
      (zip ?fq (map (fitted_avg X y nc j) [0..<nc])) = Inr (map (fitted_var X y nc j) [0..<nc])"
  proof -
    have "map_res (\<lambda>(x, a). bindr (truediv x ?n) (\<lambda>d. Inr (d - a\<^sup>2)))
      (zip ?fq (map (fitted_avg X y nc j) [0..<nc])) =
      Inr (map (\<lambda>(x, a). x / ?n - a\<^sup>2) (zip ?fq (map (fitted_avg X y nc j) [0..<nc])))"
      using n by (intro map_res_all_Inr) (auto simp: truediv_def)
    then show ?thesis unfolding zipped by (simp add: fitted_var_def comp_def)
  qed
  from True show ?thesis
    by (simp add: column_moments_def for_res_accumulate avg var)
qed

lemma for_res_collect:
  "for_res (\<lambda>j (av, vr). bindr (cm j) (\<lambda>(fa, fv). Inr (av @ [fa], vr @ [fv]))) js (a0, v0) =
   bindr (map_res cm js) (\<lambda>cols. Inr (a0 @ map fst cols, v0 @ map snd cols))"
proof (induction js arbitrary: a0 v0)
  case Nil
  then show ?case by simp
next
  case (Cons j js)
  show ?case
  proof (cases "cm j")
    case (Inl e)
    then show ?thesis by simp
  next
    case (Inr p)
    obtain fa fv where p: "p = (fa, fv)" by (cases p)
    show ?thesis
    proof (cases "map_res cm js")
      case (Inl e)
      with Inr p Cons.IH[of "a0 @ [fa]" "v0 @ [fv]"] show ?thesis by simp
    next
      case r: (Inr cols)
      with Inr p Cons.IH[of "a0 @ [fa]" "v0 @ [fv]"] show ?thesis by simp
    qed
  qed
qed

lemma getitem_first: "getitem X 0 = (case X of [] \<Rightarrow> Inl IndexError | row0 # _ \<Rightarrow> Inr row0)"
  by (cases X) (simp_all add: getitem_def py_index_def)

lemma get_avg_var_eq:
  "get_avg_var X y nc =
     (if X = [] \<or> \<not> all_rows_ok X y nc then Inl IndexError
      else Inr (map (\<lambda>j. map (fitted_avg X y nc j) [0..<nc]) [0..<length (hd X)],
                map (\<lambda>j. map (fitted_var X y nc j) [0..<nc]) [0..<length (hd X)]))"
proof (cases X)
  case Nil
  then show ?thesis by (simp add: get_avg_var_def getitem_first)
next
  case (Cons row0 rest)
  then have ne: "X \<noteq> []" by simp
  let ?m = "length (hd X)"
  have unfold: "get_avg_var X y nc =
      bindr (map_res (column_moments X y nc (length X)) [0..<?m])
        (\<lambda>cols. Inr (map fst cols, map snd cols))"
    using Cons for_res_collect[of "column_moments X y nc (length X)" "[0..<?m]" "[]" "[]"]
    by (simp add: get_avg_var_def getitem_first)
  show ?thesis
  proof (cases "all_rows_ok X y nc")
    case True
    then have "map_res (column_moments X y nc (length X)) [0..<?m] =
        Inr (map (\<lambda>j. (map (fitted_avg X y nc j) [0..<nc], map (fitted_var X y nc j) [0..<nc]))
               [0..<?m])"
      by (intro map_res_all_Inr) (simp add: column_moments_eq[OF ne] all_rows_ok_def)
    with True ne show ?thesis by (simp add: unfold comp_def)
  next
    case False
    then obtain j where j: "j < ?m" "\<not> rows_ok X y j nc (length X)"
      by (auto simp: all_rows_ok_def)
    have "map_res (column_moments X y nc (length X)) [0..<?m] = Inl IndexError"
    proof (rule map_res_fails)
      show "j \<in> set [0..<?m]" using j by simp
      show "column_moments X y nc (length X) j = Inl IndexError"
        using j by (simp add: column_moments_eq[OF ne])
      show "e' = IndexError" if "column_moments X y nc (length X) z = Inl e'" for z e'
        using that by (simp add: column_moments_eq[OF ne] split: if_splits)
    qed
    with False show ?thesis by (simp add: unfold)
  qed
qed


subsection \<open>The label counter\<close>

lemma map_of_counter_add:
  "map_of (counter_add l kcs) =
     (map_of kcs)(l \<mapsto> (case map_of kcs l of None \<Rightarrow> 1 | Some c \<Rightarrow> c + 1))"
  by (induction l kcs rule: counter_add.induct) (auto simp: fun_eq_iff)

lemma keys_counter_add:
  "map fst (counter_add l kcs) = (if l \<in> set (map fst kcs) then map fst kcs else map fst kcs @ [l])"
  by (induction l kcs rule: counter_add.induct) auto

lemma distinct_counter_add:
  "distinct (map fst kcs) \<Longrightarrow> distinct (map fst (counter_add l kcs))"
  by (simp add: keys_counter_add)

lemma fold_counter_add_keys:
  "distinct (map fst kcs) \<Longrightarrow>
   distinct (map fst (fold counter_add y kcs)) \<and>
   set (map fst (fold counter_add y kcs)) = set (map fst kcs) \<union> set y"
proof (induction y arbitrary: kcs)
  case Nil
  then show ?case by simp
next
  case (Cons l y)
  from Cons.prems have "distinct (map fst (counter_add l kcs))"
    by (rule distinct_counter_add)
  from Cons.IH[OF this] show ?case
    by (auto simp: keys_counter_add split: if_splits)
qed

lemma fold_counter_add_count:
  "map_of (fold counter_add y kcs) l =
     (if l \<in> set y
      then Some (count_list y l + (case map_of kcs l of None \<Rightarrow> 0 | Some c \<Rightarrow> c))
      else map_of kcs l)"
proof (induction y arbitrary: kcs)
  case Nil
  then show ?case by simp
next
  case (Cons a y)
  show ?case
    by (simp add: Cons.IH map_of_counter_add count_list_0_iff split: option.splits)
qed

lemma Counter_count:
  "map_of (Counter y) l = (if l \<in> set y then Some (count_list y l) else None)"
  by (simp add: Counter_def fold_counter_add_count)

lemma Counter_keys: "distinct (map fst (Counter y))" "set (map fst (Counter y)) = set y"
  using fold_counter_add_keys[of "[]" y] by (simp_all add: Counter_def)

lemma length_Counter: "length (Counter y) = card (set y)"
proof -
  have "card (set y) = card (set (map fst (Counter y)))"
    by (simp only: Counter_keys(2))
  also have "\<dots> = length (map fst (Counter y))"
    using Counter_keys(1) by (rule distinct_card)
  finally show ?thesis by simp
qed

lemma fit_eq:
  "fit X y self =
     (if X = [] \<or> \<not> all_rows_ok X y (card (set y))
      then (Inl IndexError, self\<lparr>prior := Some (get_prior y), n_class := Some (card (set y))\<rparr>)
      else (Inr (), self\<lparr>prior := Some (get_prior y), n_class := Some (card (set y)),
              avgs := Some (map (\<lambda>j. map (fitted_avg X y (card (set y)) j) [0..<card (set y)])
                             [0..<length (hd X)]),
              variances := Some (map (\<lambda>j. map (fitted_var X y (card (set y)) j) [0..<card (set y)])
                             [0..<length (hd X)])\<rparr>))"
  by (simp add: fit_def Let_def get_avg_var_eq get_prior_def length_Counter)


subsection \<open>Arithmetic of the moments\<close>

lemma rows_sum_sqr_nonneg: "0 \<le> rows_sum (\<lambda>i. (f i)\<^sup>2) P k"
  by (induction k) auto

lemma rows_sum_cross:
  "2 * z * rows_sum f P k \<le> real k * z\<^sup>2 + rows_sum (\<lambda>i. (f i)\<^sup>2) P k"
proof (induction k)
  case 0
  then show ?case by simp
next
  case (Suc k)
  have sq: "0 \<le> z\<^sup>2" by simp
  show ?case
  proof (cases "P k")
    case False
    have "real k * z\<^sup>2 + rows_sum (\<lambda>i. (f i)\<^sup>2) P k \<le>
        real (Suc k) * z\<^sup>2 + rows_sum (\<lambda>i. (f i)\<^sup>2) P k"
      by (simp add: algebra_simps)
    with Suc False show ?thesis by simp
  next
    case True
    have "2 * z * f k \<le> z\<^sup>2 + (f k)\<^sup>2"
      using sum_squares_bound[of z "f k"] by (simp add: mult.assoc)
    with Suc True show ?thesis by (simp add: algebra_simps)
  qed
qed

lemma rows_sum_cauchy_schwarz:
  "(rows_sum f P k)\<^sup>2 \<le> real k * rows_sum (\<lambda>i. (f i)\<^sup>2) P k"
proof (induction k)
  case 0
  then show ?case by simp
next
  case (Suc k)
  show ?case
  proof (cases "P k")
    case False
    with Suc rows_sum_sqr_nonneg[of f P k] show ?thesis
      by (simp add: algebra_simps)
  next
    case True
    have "(rows_sum f P k + f k)\<^sup>2 =
        (rows_sum f P k)\<^sup>2 + 2 * f k * rows_sum f P k + (f k)\<^sup>2"
      by (simp add: power2_sum algebra_simps)
    also have "\<dots> \<le> real k * rows_sum (\<lambda>i. (f i)\<^sup>2) P k +
        (real k * (f k)\<^sup>2 + rows_sum (\<lambda>i. (f i)\<^sup>2) P k) + (f k)\<^sup>2"
      using Suc rows_sum_cross[of "f k" f P k] by simp
    also have "\<dots> = real (Suc k) * (rows_sum (\<lambda>i. (f i)\<^sup>2) P k + (f k)\<^sup>2)"
      by (simp add: algebra_simps)
    finally show ?thesis using True by simp
  qed
qed

lemma fitted_var_nonneg: "0 \<le> fitted_var X y nc j c"
proof (cases "X = []")
  case True
  then show ?thesis by (simp add: fitted_var_def fitted_avg_def)
next
  case False
  let ?n = "real (length X)"
  let ?s = "slot_sum X y j nc (length X) c"
  let ?q = "slot_sqr_sum X y j nc (length X) c"
  from False have n: "0 < ?n" by simp
  have "?s\<^sup>2 \<le> ?n * ?q"
    unfolding slot_sum_def slot_sqr_sum_def by (rule rows_sum_cauchy_schwarz)
  then have "?s\<^sup>2 / ?n\<^sup>2 \<le> (?n * ?q) / ?n\<^sup>2"
    by (rule divide_right_mono) simp
  also have "(?n * ?q) / ?n\<^sup>2 = ?q / ?n"
    using n by (simp add: power2_eq_square)
  finally show ?thesis
    by (simp add: fitted_var_def fitted_avg_def power_divide)
qed

lemma sum_list_single_slot:
  "sum_list (map (\<lambda>c. if c0 = c then v else 0) [0..<nc]) = (if c0 < nc then v else (0::real))"
  by (induction nc) auto

lemma sum_list_slots:
  assumes "\<And>i. i < k \<Longrightarrow> \<exists>c<nc. g i = Inr c"
  shows "sum_list (map (\<lambda>c. rows_sum f (\<lambda>i. g i = Inr c) k) [0..<nc]) =
         sum_list (map f [0..<k])"
  using assms
proof (induction k)
  case 0
  then show ?case by simp
next
  case (Suc k)
  from Suc.prems[of k] obtain c0 where c0: "c0 < nc" "g k = Inr c0" by auto
  have "sum_list (map (\<lambda>c. rows_sum f (\<lambda>i. g i = Inr c) (Suc k)) [0..<nc]) =
      sum_list (map (\<lambda>c. rows_sum f (\<lambda>i. g i = Inr c) k) [0..<nc]) +
      sum_list (map (\<lambda>c. if c0 = c then f k else 0) [0..<nc])"
    using c0 by (simp add: sum_list_addf)
  also have "\<dots> = sum_list (map f [0..<k]) + f k"
    using Suc c0 by (simp add: sum_list_single_slot)
  finally show ?case by simp
qed

subsection \<open>Valid inputs\<close>

lemma valid_input_rows_ok:
  assumes "valid_input X y"
  shows "X \<noteq> []" and "all_rows_ok X y (card (set y))"
proof -
  from assms show ne: "X \<noteq> []" by (simp add: valid_input_def)
  have card: "length (remdups y) = card (set y)" by (simp add: length_remdups_card_conv)
  show "all_rows_ok X y (card (set y))"
    unfolding all_rows_ok_def rows_ok_def row_ok_def
  proof (intro allI impI)
    fix j i
    assume j: "j < length (hd X)" and i: "i < length X"
    from assms i have "length (X ! i) = length (hd X)"
      by (simp add: valid_input_def list_all_length)
    moreover from assms i have "i < length y" by (simp add: valid_input_def)
    moreover from assms i have "0 \<le> y ! i \<and> y ! i < int (card (set y))"
      by (simp add: valid_input_def list_all_length card)
    ultimately show "i < length y \<and> - int (card (set y)) \<le> y ! i \<and>
        y ! i < int (card (set y)) \<and> j < length (X ! i)"
      using j by simp
  qed
qed



lemma sum_list_column: "sum_list (map (\<lambda>row. row ! j) X) = sum_list (map (\<lambda>i. X ! i ! j) [0..<length X])"
proof -
  have "map (\<lambda>row. row ! j) X = map (\<lambda>row. row ! j) (map (\<lambda>i. X ! i) [0..<length X])"
    by (simp only: map_nth)
  then show ?thesis by (simp add: comp_def)
qed

lemma sum_list_divide:
  "sum_list (map (\<lambda>x. f x / d) xs) = sum_list (map f xs) / (d::real)"
  by (induction xs) (simp_all add: add_divide_distrib)

lemma map_res_first_fails: "xs \<noteq> [] \<Longrightarrow> (\<And>x. f x = Inl e) \<Longrightarrow> map_res f xs = Inl e"
  by (cases xs) simp_all

subsection \<open>\<open>max\<close> over an enumeration\<close>

lemma fold_max_enumerate:
  fixes xs :: "real list"
  assumes "fold (\<lambda>item best. if snd best < snd item then item else best) (enumerate n xs) (b, v)
             = (k, w)"
  shows "(\<forall>x\<in>set xs. x \<le> w) \<and> v \<le> w \<and>
         (k = b \<and> w = v \<or>
          n \<le> k \<and> k < n + length xs \<and> xs ! (k - n) = w \<and> v < w \<and> (\<forall>i<k - n. xs ! i < w))"
  using assms
proof (induction xs arbitrary: n b v)
  case Nil
  then show ?case by simp
next
  case (Cons x xs)
  show ?case
  proof (cases "v < x")
    case True
    with Cons.prems have
      "fold (\<lambda>item best. if snd best < snd item then item else best) (enumerate (Suc n) xs) (n, x)
         = (k, w)"
      by simp
    from Cons.IH[OF this] have all: "\<forall>z\<in>set xs. z \<le> w" and xw: "x \<le> w"
      and pos: "k = n \<and> w = x \<or>
          Suc n \<le> k \<and> k < Suc n + length xs \<and> xs ! (k - Suc n) = w \<and> x < w \<and>
          (\<forall>i<k - Suc n. xs ! i < w)"
      by auto
    from pos have "n \<le> k \<and> k < n + length (x # xs) \<and> (x # xs) ! (k - n) = w \<and> v < w \<and>
        (\<forall>i<k - n. (x # xs) ! i < w)"
    proof
      assume "k = n \<and> w = x"
      with True show ?thesis by simp
    next
      assume far: "Suc n \<le> k \<and> k < Suc n + length xs \<and> xs ! (k - Suc n) = w \<and> x < w \<and>
          (\<forall>i<k - Suc n. xs ! i < w)"
      then have "Suc n \<le> k" by simp
      then have "k - n = Suc (k - Suc n)" by arith
      with far True show ?thesis
        by (auto simp: nth_Cons split: nat.splits)
    qed
    with all xw True show ?thesis by auto
  next
    case False
    with Cons.prems have
      "fold (\<lambda>item best. if snd best < snd item then item else best) (enumerate (Suc n) xs) (b, v)
         = (k, w)"
      by simp
    from Cons.IH[OF this] have all: "\<forall>z\<in>set xs. z \<le> w" and vw: "v \<le> w"
      and pos: "k = b \<and> w = v \<or>
          Suc n \<le> k \<and> k < Suc n + length xs \<and> xs ! (k - Suc n) = w \<and> v < w \<and>
          (\<forall>i<k - Suc n. xs ! i < w)"
      by auto
    from pos have "k = b \<and> w = v \<or>
        n \<le> k \<and> k < n + length (x # xs) \<and> (x # xs) ! (k - n) = w \<and> v < w \<and>
        (\<forall>i<k - n. (x # xs) ! i < w)"
    proof
      assume "k = b \<and> w = v"
      then show ?thesis by simp
    next
      assume far: "Suc n \<le> k \<and> k < Suc n + length xs \<and> xs ! (k - Suc n) = w \<and> v < w \<and>
          (\<forall>i<k - Suc n. xs ! i < w)"
      then have "Suc n \<le> k" by simp
      then have "k - n = Suc (k - Suc n)" by arith
      with far False have "n \<le> k \<and> k < n + length (x # xs) \<and> (x # xs) ! (k - n) = w \<and> v < w \<and>
        (\<forall>i<k - n. (x # xs) ! i < w)"
        by (auto simp: nth_Cons split: nat.splits)
      then show ?thesis ..
    qed
    with all vw False show ?thesis by auto
  qed
qed

lemma py_max_enumerate:
  assumes "row \<noteq> []"
  shows "\<exists>k w. py_max snd (enumerate 0 row) = Inr (k, w) \<and> is_first_max row k"
proof -
  from assms obtain p ps where row: "row = p # ps" by (cases row) auto
  obtain k w where
    f: "fold (\<lambda>item best. if snd best < snd item then item else best) (enumerate (Suc 0) ps) (0, p)
          = (k, w)"
    by (cases "fold (\<lambda>item best. if snd best < snd item then item else best)
          (enumerate (Suc 0) ps) (0::nat, p)") auto
  from fold_max_enumerate[OF f] have all: "\<forall>x\<in>set ps. x \<le> w" and pw: "p \<le> w"
    and pos: "k = 0 \<and> w = p \<or>
        Suc 0 \<le> k \<and> k < Suc 0 + length ps \<and> ps ! (k - Suc 0) = w \<and> p < w \<and>
        (\<forall>i<k - Suc 0. ps ! i < w)"
    by auto
  from pos have "is_first_max (p # ps) k"
  proof
    assume "k = 0 \<and> w = p"
    with all show ?thesis
      by (auto simp: is_first_max_def nth_Cons split: nat.splits)
  next
    assume far: "Suc 0 \<le> k \<and> k < Suc 0 + length ps \<and> ps ! (k - Suc 0) = w \<and> p < w \<and>
        (\<forall>i<k - Suc 0. ps ! i < w)"
    then obtain k' where k': "k = Suc k'" by (cases k) auto
    with far all pw show ?thesis
      by (auto simp: is_first_max_def nth_Cons split: nat.splits)
  qed
  with f row show ?thesis by simp
qed

lemma map_res_argmax:
  assumes "\<forall>row\<in>set P. row \<noteq> []"
  shows "\<exists>ks. map_res (\<lambda>y. bindr (py_max snd (enumerate 0 y)) (\<lambda>best. Inr (fst best))) P = Inr ks
            \<and> list_all2 is_first_max P ks"
  using assms
proof (induction P)
  case Nil
  then show ?case by simp
next
  case (Cons row P)
  then obtain ks where ks:
    "map_res (\<lambda>y. bindr (py_max snd (enumerate 0 y)) (\<lambda>best. Inr (fst best))) P = Inr ks"
    "list_all2 is_first_max P ks"
    by auto
  from Cons.prems have "row \<noteq> []" by simp
  from py_max_enumerate[OF this] obtain k w where
    "py_max snd (enumerate 0 row) = Inr (k, w)" "is_first_max row k"
    by auto
  with ks show ?case by simp
qed

subsection \<open>The loops of \<open>_predict_prob\<close>\<close>

lemma for_res_single_fun [simp]: "for_res body [x] = body x"
  by (rule ext) simp

lemma map_res_map: "map_res f (map g xs) = map_res (\<lambda>x. f (g x)) xs"
  by (induction xs) simp_all

lemma for_res_map: "for_res body (map g xs) s = for_res (\<lambda>x. body (g x)) xs s"
  by (induction xs arbitrary: s) (simp_all add: bindr_def split: sum.splits)

lemma zip3_indexed:
  "zip xs (zip ys zs) =
     map (\<lambda>j. (xs ! j, ys ! j, zs ! j)) [0..<min (length xs) (min (length ys) (length zs))]"
  by (rule nth_equalityI) simp_all

lemma gauss_density_pos: "0 < var \<Longrightarrow> 0 < gauss_density x avg var"
  by (simp add: gauss_density_def)

lemma get_posterior_eq:
  "get_posterior x avg var =
     (if var < 0 then Inl ValueError else if var = 0 then Inl ZeroDivisionError
      else Inr (gauss_density x avg var))"
  by (simp add: get_posterior_def math_sqrt_def truediv_def gauss_density_def
      mult_less_0_iff)

lemma scale_probs_eq:
  assumes "length probs = nc" and "length a = nc" and "length v = nc"
    and nonneg: "\<forall>c<nc. 0 \<le> v ! c"
  shows "scale_probs (x, a, v) probs =
     (if \<forall>c<nc. 0 < v ! c
      then Inr (map (\<lambda>c. probs ! c * gauss_density x (a ! c) (v ! c)) [0..<nc])
      else Inl ZeroDivisionError)"
proof -
  let ?f = "\<lambda>c. bindr (get_posterior x (a ! c) (v ! c)) (\<lambda>d. Inr (probs ! c * d))"
  have unfold: "scale_probs (x, a, v) probs = map_res ?f [0..<nc]"
    using assms(1-3) by (simp add: scale_probs_def zip3_indexed map_res_map)
  show ?thesis
  proof (cases "\<forall>c<nc. 0 < v ! c")
    case True
    have "map_res ?f [0..<nc] =
        Inr (map (\<lambda>c. probs ! c * gauss_density x (a ! c) (v ! c)) [0..<nc])"
    proof (rule map_res_all_Inr)
      fix c
      assume "c \<in> set [0..<nc]"
      with True have "0 < v ! c" by simp
      then show "?f c = Inr (probs ! c * gauss_density x (a ! c) (v ! c))"
        by (simp add: get_posterior_eq)
    qed
    with True show ?thesis by (simp add: unfold)
  next
    case False
    then obtain c where c: "c < nc" "\<not> 0 < v ! c" by auto
    with nonneg have zero: "v ! c = 0" by force
    have "map_res ?f [0..<nc] = Inl ZeroDivisionError"
    proof (rule map_res_fails)
      show "c \<in> set [0..<nc]" using c by simp
      show "?f c = Inl ZeroDivisionError" using zero by (simp add: get_posterior_eq)
      show "e' = ZeroDivisionError" if "z \<in> set [0..<nc]" and "?f z = Inl e'" for z e'
      proof -
        from that(1) nonneg have "0 \<le> v ! z" by simp
        with that(2) show ?thesis by (simp add: get_posterior_eq split: if_splits)
      qed
    qed
    with False show ?thesis by (simp add: unfold)
  qed
qed

lemma likelihood_take_Suc:
  assumes "k < length row"
  shows "likelihood av vr (take (Suc k) row) c =
         likelihood av vr (take k row) c * gauss_density (row ! k) (av ! k ! c) (vr ! k ! c)"
proof -
  from assms have len: "length (take (Suc k) row) = Suc k" "length (take k row) = k"
    by simp_all
  have "prod_list (map (\<lambda>j. gauss_density (take (Suc k) row ! j) (av ! j ! c) (vr ! j ! c)) [0..<k]) =
      prod_list (map (\<lambda>j. gauss_density (take k row ! j) (av ! j ! c) (vr ! j ! c)) [0..<k])"
    by (rule arg_cong[where f = prod_list]) simp
  then show ?thesis
    unfolding likelihood_def len by simp
qed

lemma likelihood_pos:
  assumes "k \<le> length row" and "\<forall>j<k. 0 < vr ! j ! c"
  shows "0 < likelihood av vr (take k row) c"
  using assms
proof (induction k)
  case 0
  then show ?case by (simp add: likelihood_def)
next
  case (Suc k)
  then have "0 < likelihood av vr (take k row) c" by simp
  moreover from Suc.prems have "0 < gauss_density (row ! k) (av ! k ! c) (vr ! k ! c)"
    by (intro gauss_density_pos) simp
  ultimately show ?case using Suc.prems by (simp add: likelihood_take_Suc)
qed

lemma for_res_scale_probs:
  assumes "k \<le> length row"
    and "\<forall>j<k. length (av ! j) = nc \<and> length (vr ! j) = nc \<and> (\<forall>c<nc. 0 \<le> vr ! j ! c)"
  shows "for_res (\<lambda>j. scale_probs (row ! j, av ! j, vr ! j)) [0..<k] (replicate nc 1) =
     (if \<forall>j<k. \<forall>c<nc. 0 < vr ! j ! c
      then Inr (map (likelihood av vr (take k row)) [0..<nc])
      else Inl ZeroDivisionError)"
  using assms
proof (induction k)
  case 0
  have "replicate nc (1::real) = map (\<lambda>c. 1) [0..<nc]"
    by (simp add: map_replicate_const)
  then show ?case by (simp add: likelihood_def)
next
  case (Suc k)
  let ?loop = "\<lambda>k. for_res (\<lambda>j. scale_probs (row ! j, av ! j, vr ! j)) [0..<k] (replicate nc 1)"
  from Suc.prems have k: "k < length row" by simp
  from Suc have IH: "?loop k =
     (if \<forall>j<k. \<forall>c<nc. 0 < vr ! j ! c
      then Inr (map (likelihood av vr (take k row)) [0..<nc])
      else Inl ZeroDivisionError)"
    by simp
  have step: "?loop (Suc k) = bindr (?loop k) (scale_probs (row ! k, av ! k, vr ! k))"
    by (simp add: for_res_append)
  show ?case
  proof (cases "\<forall>j<k. \<forall>c<nc. 0 < vr ! j ! c")
    case False
    then have none: "\<not> (\<forall>j<Suc k. \<forall>c<nc. 0 < vr ! j ! c)"
      using less_Suc_eq by blast
    from IH have "?loop k = Inl ZeroDivisionError"
      unfolding if_not_P[OF False] .
    with step have "?loop (Suc k) = Inl ZeroDivisionError" by simp
    then show ?thesis unfolding if_not_P[OF none] .
  next
    case True
    from IH have "?loop k = Inr (map (likelihood av vr (take k row)) [0..<nc])"
      unfolding if_P[OF True] .
    with step have step': "?loop (Suc k) =
        scale_probs (row ! k, av ! k, vr ! k) (map (likelihood av vr (take k row)) [0..<nc])"
      by simp
    from Suc.prems(2) have shape: "length (av ! k) = nc" "length (vr ! k) = nc"
      "\<forall>c<nc. 0 \<le> vr ! k ! c"
      by simp_all
    have "scale_probs (row ! k, av ! k, vr ! k) (map (likelihood av vr (take k row)) [0..<nc]) =
       (if \<forall>c<nc. 0 < vr ! k ! c
        then Inr (map (\<lambda>c. map (likelihood av vr (take k row)) [0..<nc] ! c *
                       gauss_density (row ! k) (av ! k ! c) (vr ! k ! c)) [0..<nc])
        else Inl ZeroDivisionError)"
      using shape by (intro scale_probs_eq) simp_all
    also have "map (\<lambda>c. map (likelihood av vr (take k row)) [0..<nc] ! c *
                       gauss_density (row ! k) (av ! k ! c) (vr ! k ! c)) [0..<nc] =
        map (likelihood av vr (take (Suc k) row)) [0..<nc]"
      using k by (simp add: likelihood_take_Suc)
    finally have last: "scale_probs (row ! k, av ! k, vr ! k)
        (map (likelihood av vr (take k row)) [0..<nc]) =
       (if \<forall>c<nc. 0 < vr ! k ! c
        then Inr (map (likelihood av vr (take (Suc k) row)) [0..<nc])
        else Inl ZeroDivisionError)" .
    show ?thesis
    proof (cases "\<forall>c<nc. 0 < vr ! k ! c")
      case good: True
      with True have all: "\<forall>j<Suc k. \<forall>c<nc. 0 < vr ! j ! c"
        using less_Suc_eq by auto
      from last have "scale_probs (row ! k, av ! k, vr ! k)
          (map (likelihood av vr (take k row)) [0..<nc]) =
          Inr (map (likelihood av vr (take (Suc k) row)) [0..<nc])"
        unfolding if_P[OF good] .
      with step' show ?thesis unfolding if_P[OF all] by simp
    next
      case bad: False
      then have none: "\<not> (\<forall>j<Suc k. \<forall>c<nc. 0 < vr ! j ! c)"
        by blast
      from last have "scale_probs (row ! k, av ! k, vr ! k)
          (map (likelihood av vr (take k row)) [0..<nc]) = Inl ZeroDivisionError"
        unfolding if_not_P[OF bad] .
      with step' show ?thesis unfolding if_not_P[OF none] by simp
    qed
  qed
qed

lemma sum_list_pos_real:
  fixes xs :: "real list"
  shows "xs \<noteq> [] \<Longrightarrow> \<forall>x\<in>set xs. 0 < x \<Longrightarrow> 0 < sum_list xs"
  by (induction xs) (auto simp: add_pos_nonneg sum_list_nonneg less_imp_le)

lemma normalise_positive:
  fixes ps :: "real list"
  assumes "\<forall>p\<in>set ps. 0 < p"
  shows "map_res (\<lambda>prob. truediv prob (sum_list ps)) ps = Inr (normalised ps)"
  unfolding normalised_def
proof (rule map_res_all_Inr)
  fix x
  assume "x \<in> set ps"
  then have "ps \<noteq> []" by auto
  with assms have "0 < sum_list ps" by (intro sum_list_pos_real)
  then show "truediv x (sum_list ps) = Inr (x / sum_list ps)"
    by (simp add: truediv_def)
qed

lemma predict_prob_row_eq:
  assumes "fitted_shape self nc m av vr"
  shows "predict_prob_row self row =
     (if \<forall>j<min (length row) m. \<forall>c<nc. 0 < vr ! j ! c
      then Inr (normalised (map (likelihood av vr (take (min (length row) m) row)) [0..<nc]))
      else Inl ZeroDivisionError)"
proof -
  let ?k = "min (length row) m"
  from assms have fields: "n_class self = Some nc" "avgs self = Some av" "variances self = Some vr"
    and len: "length av = m" "length vr = m"
    and shape: "\<forall>j<m. length (av ! j) = nc \<and> length (vr ! j) = nc \<and> (\<forall>c<nc. 0 \<le> vr ! j ! c)"
    by (simp_all add: fitted_shape_def)
  have loop: "for_res scale_probs (zip row (zip av vr)) (replicate nc 1) =
     (if \<forall>j<?k. \<forall>c<nc. 0 < vr ! j ! c
      then Inr (map (likelihood av vr (take ?k row)) [0..<nc])
      else Inl ZeroDivisionError)"
    using shape len for_res_scale_probs[of ?k row av nc vr]
    by (simp add: zip3_indexed for_res_map)
  show ?thesis
  proof (cases "\<forall>j<?k. \<forall>c<nc. 0 < vr ! j ! c")
    case False
    from loop have "for_res scale_probs (zip row (zip av vr)) (replicate nc 1) =
        Inl ZeroDivisionError"
      unfolding if_not_P[OF False] .
    then show ?thesis
      unfolding if_not_P[OF False] by (simp add: predict_prob_row_def fields)
  next
    case True
    from loop have loop': "for_res scale_probs (zip row (zip av vr)) (replicate nc 1) =
        Inr (map (likelihood av vr (take ?k row)) [0..<nc])"
      unfolding if_P[OF True] .
    from True have "\<forall>p\<in>set (map (likelihood av vr (take ?k row)) [0..<nc]). 0 < p"
      by (auto intro!: likelihood_pos)
    then have "map_res (\<lambda>prob. truediv prob
          (sum_list (map (likelihood av vr (take ?k row)) [0..<nc])))
          (map (likelihood av vr (take ?k row)) [0..<nc]) =
        Inr (normalised (map (likelihood av vr (take ?k row)) [0..<nc]))"
      by (rule normalise_positive)
    then show ?thesis
      unfolding if_P[OF True] by (simp add: predict_prob_row_def fields Let_def loop')
  qed
qed


subsection \<open>Fitted models and the length of a row\<close>





subsection \<open>Three fitted models\<close>




lemma predict_prob_example_1:
  "predict_prob \<lparr>prior = Some [(0, 1), (1, 1)], avgs = Some [[1 / 2, 3 / 2]],
               variances = Some [[1 / 4, 9 / 4]], n_class = Some 2\<rparr> [1 # rest] =
     Inr [normalised [gauss_density 1 (1 / 2) (1 / 4), gauss_density 1 (3 / 2) (9 / 4)]]"
proof -
  let ?M = "\<lparr>prior = Some [(0, 1), (1, 1)], avgs = Some [[1 / 2, 3 / 2]],
               variances = Some [[1 / 4, 9 / 4]], n_class = Some 2\<rparr>"
  have shape: "fitted_shape ?M 2 1 [[1 / 2, 3 / 2]] [[1 / 4, 9 / 4]]"
    by (simp add: fitted_shape_def less_Suc_eq numeral_2_eq_2)
  have "predict_prob_row ?M (1 # rest) =
      Inr (normalised [gauss_density 1 (1 / 2) (1 / 4), gauss_density 1 (3 / 2) (9 / 4)])"
    unfolding predict_prob_row_eq[OF shape]
    by (simp add: likelihood_def less_Suc_eq numeral_2_eq_2)
  then show ?thesis by (simp add: predict_prob_def)
qed


section \<open>The claims\<close>





text \<open>
  C3: when \<open>predict_prob(X)\<close> returns rows with at least one entry, \<open>predict(X, threshold)\<close>
  returns, for each row, the index of the first maximal entry of that row of
  \<open>predict_prob(X)\<close> (ties go to the lowest class index), and the result is the same for
  every value of \<open>threshold\<close>.
\<close>

theorem predict_is_first_argmax:
  assumes "predict_prob self X = Inr P" and "\<forall>row\<in>set P. row \<noteq> []"
  shows "\<exists>ks. (\<forall>threshold. predict self X threshold = Inr ks) \<and> list_all2 is_first_max P ks"
  using map_res_argmax[OF assms(2)] assms(1) by (auto simp: predict_def)

theorem predict_is_first_argmax_witness:
  "predict_prob \<lparr>prior = Some [(0, 1), (1, 1)], avgs = Some [[1 / 2, 3 / 2]],
               variances = Some [[1 / 4, 9 / 4]], n_class = Some 2\<rparr> [[1]] =
     Inr [normalised [gauss_density 1 (1 / 2) (1 / 4), gauss_density 1 (3 / 2) (9 / 4)]] \<and>
   (\<exists>ks. (\<forall>threshold. predict \<lparr>prior = Some [(0, 1), (1, 1)], avgs = Some [[1 / 2, 3 / 2]],
               variances = Some [[1 / 4, 9 / 4]], n_class = Some 2\<rparr> [[1]] threshold = Inr ks) \<and>
      list_all2 is_first_max
        [normalised [gauss_density 1 (1 / 2) (1 / 4), gauss_density 1 (3 / 2) (9 / 4)]] ks)"
proof -
  have rows: "\<forall>row\<in>set [normalised [gauss_density 1 (1 / 2) (1 / 4),
      gauss_density 1 (3 / 2) (9 / 4)]]. row \<noteq> []"
    by (simp add: normalised_def)
  from predict_is_first_argmax[OF predict_prob_example_1[of "[]"] rows]
    predict_prob_example_1[of "[]"]
  show ?thesis by simp
qed




text \<open>
  C5: the prior estimator returns the mapping from each distinct label of \<open>y\<close> to its number
  of occurrences in \<open>y\<close> (raw counts, each key once, no entry for a label that does not
  occur), and \<open>fit\<close> stores that mapping and sets \<open>n_class\<close> to the number of its keys.
\<close>

theorem prior_counts_labels:
  "map_of (get_prior y) = (\<lambda>l. if l \<in> set y then Some (count_list y l) else None) \<and>
   distinct (map fst (get_prior y)) \<and>
   prior (snd (fit X y self)) = Some (get_prior y) \<and>
   n_class (snd (fit X y self)) = Some (card (dom (map_of (get_prior y))))"
proof -
  have m: "map_of (get_prior y) = (\<lambda>l. if l \<in> set y then Some (count_list y l) else None)"
    by (rule ext) (simp add: get_prior_def Counter_count)
  then have "dom (map_of (get_prior y)) = set y"
    by (auto simp: dom_def)
  then show ?thesis using m
    by (simp add: fit_eq get_prior_def Counter_keys)
qed







text \<open>
  C8, as stated, fails for an input with no rows: on a freshly constructed classifier
  \<open>predict_prob([])\<close> and \<open>predict([])\<close> return the empty list, since no row is ever
  processed.
\<close>

theorem unfitted_empty_input_returns:
  "predict_prob init [] = Inr [] \<and> predict init [] (1 / 2) = Inr []"
  by (simp add: predict_prob_def predict_def)

text \<open>
  C8, amended: on a freshly constructed classifier, every call to \<open>predict_prob\<close> or
  \<open>predict\<close> with at least one row fails, with the TypeError of \<open>[1] * None\<close>, the first
  access to an unset attribute.
\<close>

theorem unfitted_predict_fails:
  assumes "X \<noteq> []"
  shows "predict_prob init X = Inl TypeError \<and> predict init X threshold = Inl TypeError"
proof -
  have "predict_prob_row init row = Inl TypeError" for row
    by (simp add: predict_prob_row_def init_def)
  with assms have "predict_prob init X = Inl TypeError"
    unfolding predict_prob_def by (intro map_res_first_fails)
  then show ?thesis by (simp add: predict_def)
qed

theorem unfitted_predict_fails_witness:
  "[[1 :: real]] \<noteq> [] \<and> predict_prob init [[1]] = Inl TypeError \<and>
   predict init [[1]] (1 / 2) = Inl TypeError"
  using unfitted_predict_fails[of "[[1]]" "1 / 2"] by simp

text \<open>
  C9: for a non-empty feature matrix and a valid label vector, \<open>fit\<close> succeeds and, for
  every column \<open>j\<close>, the sum over all classes of \<open>avgs[j][c]\<close> is the mean of column \<open>j\<close>
  over all rows.
\<close>

theorem class_avgs_sum_to_column_mean:
  assumes "valid_input X y" and "j < length (hd X)"
  shows "\<exists>self' av. fit X y self = (Inr (), self') \<and> avgs self' = Some av \<and>
           length (av ! j) = card (set y) \<and> sum_list (av ! j) = column_mean X j"
proof -
  let ?nc = "card (set y)"
  note ok = valid_input_rows_ok[OF assms(1)]
  have slots: "\<exists>c<?nc. py_index ?nc (y ! i) = Inr c" if "i < length X" for i
  proof -
    from ok(2) assms(2) that have "row_ok X y j ?nc i"
      by (simp add: all_rows_ok_def rows_ok_def)
    then show ?thesis unfolding row_ok_def using py_index_in_range by blast
  qed
  have "sum_list (map (fitted_avg X y ?nc j) [0..<?nc]) =
      sum_list (map (\<lambda>c. slot_sum X y j ?nc (length X) c) [0..<?nc]) / real (length X)"
    unfolding fitted_avg_def by (rule sum_list_divide)
  also have "sum_list (map (\<lambda>c. slot_sum X y j ?nc (length X) c) [0..<?nc]) =
      sum_list (map (\<lambda>i. X ! i ! j) [0..<length X])"
    unfolding slot_sum_def using slots by (rule sum_list_slots)
  finally have "sum_list (map (fitted_avg X y ?nc j) [0..<?nc]) = column_mean X j"
    by (simp add: column_mean_def sum_list_column)
  with ok assms(2) show ?thesis by (simp add: fit_eq)
qed

theorem class_avgs_sum_to_column_mean_witness:
  "valid_input [[1], [3], [5]] [0, 1, 1] \<and>
   (\<exists>self' av. fit [[1], [3], [5]] [0, 1, 1] init = (Inr (), self') \<and> avgs self' = Some av \<and>
      length (av ! 0) = 2 \<and> sum_list (av ! 0) = 3)"
proof -
  have v: "valid_input [[1], [3], [5]] [0, 1, 1]"
    by (simp add: valid_input_def)
  have m: "column_mean [[1], [3], [5]] 0 = 3"
    by (simp add: column_mean_def)
  from class_avgs_sum_to_column_mean[OF v, of 0 init] m v show ?thesis
    by (simp add: numeral_2_eq_2)
qed

text \<open>
  C10: for a non-empty feature matrix and a valid label vector, \<open>fit\<close> succeeds and every
  entry of \<open>variances\<close> (one list of \<open>n_class\<close> entries per column) is non-negative.
\<close>

theorem fitted_variances_nonneg:
  assumes "valid_input X y"
  shows "\<exists>self' vr. fit X y self = (Inr (), self') \<and> variances self' = Some vr \<and>
           length vr = length (hd X) \<and>
           (\<forall>r\<in>set vr. length r = card (set y) \<and> (\<forall>v\<in>set r. 0 \<le> v))"
  using valid_input_rows_ok[OF assms]
  by (auto simp: fit_eq fitted_var_nonneg)

theorem fitted_variances_nonneg_witness:
  "valid_input [[1], [3], [5]] [0, 1, 1] \<and>
   (\<exists>self' vr. fit [[1], [3], [5]] [0, 1, 1] init = (Inr (), self') \<and> variances self' = Some vr \<and>
      length vr = 1 \<and> length (vr ! 0) = 2 \<and> 0 \<le> vr ! 0 ! 0 \<and> 0 \<le> vr ! 0 ! 1)"
proof -
  have v: "valid_input [[1], [3], [5]] [0, 1, 1]"
    by (simp add: valid_input_def)
  from fitted_variances_nonneg[OF v, of init] obtain self' vr where
    f: "fit [[1], [3], [5]] [0, 1, 1] init = (Inr (), self')" "variances self' = Some vr"
      "length vr = 1" and
    r: "\<forall>r\<in>set vr. length r = card (set [0, 1, 1 :: int]) \<and> (\<forall>v\<in>set r. 0 \<le> v)"
    by auto
  from f(3) have "vr ! 0 \<in> set vr" by simp
  with r have "length (vr ! 0) = 2" "\<forall>v\<in>set (vr ! 0). 0 \<le> v" by auto
  then have "length (vr ! 0) = 2 \<and> 0 \<le> vr ! 0 ! 0 \<and> 0 \<le> vr ! 0 ! 1" by simp
  with f v show ?thesis by blast
qed

end
